theory Spec2Isabelle
  imports Main "HOL-Library.FSet" "HOL-Library.Multiset"
begin

section \<open>Python values\<close>

text \<open>
  \<^verbatim>\<open>QueryContext.bindparam\<close> looks at two things of the value it is given: its runtime
  type (\<^verbatim>\<open>type(value)\<close>) and its identity (\<^verbatim>\<open>bind_value is value\<close>). A value is
  therefore a reference into a store of objects; \<^verbatim>\<open>is\<close> is equality of references, and
  two references may hold objects of equal type and content. The store is a parameter of
  each call: the program may change an object between two calls on one context, its class
  included (\<^verbatim>\<open>x.__class__ = B\<close>), and \<^verbatim>\<open>bindparam\<close> reads \<^verbatim>\<open>type(value)\<close> anew at
  every call.
\<close>

type_synonym ref = nat

record 'v pyobj =
  obj_type :: string
  obj_val :: 'v

type_synonym 'v heap = "ref \<Rightarrow> 'v pyobj"

subsection \<open>Formatting integers (\<^verbatim>\<open>f"{n}"\<close>)\<close>

definition digit_chars :: string where
  "digit_chars = ''0123456789''"

fun str_nat :: "nat \<Rightarrow> string" where
  "str_nat n = (if n < 10 then [digit_chars ! n] else str_nat (n div 10) @ [digit_chars ! (n mod 10)])"

declare str_nat.simps [simp del]

definition str_int :: "int \<Rightarrow> string" where
  "str_int i = (if i < 0 then ''-'' @ str_nat (nat (- i)) else str_nat (nat i))"

subsection \<open>Insertion-ordered dictionaries\<close>

text \<open>
  A Python \<^verbatim>\<open>dict\<close> keeps its keys in insertion order; \<^verbatim>\<open>d[k] = v\<close> replaces the value
  of a key that is present, where it stands, and appends a key that is not. Lookup is
  \<^const>\<open>map_of\<close>.
\<close>

primrec dict_set :: "'k \<Rightarrow> 'a \<Rightarrow> ('k \<times> 'a) list \<Rightarrow> ('k \<times> 'a) list" where
  "dict_set k v [] = [(k, v)]"
| "dict_set k v (p # ps) = (if fst p = k then (k, v) # ps else p # dict_set k v ps)"

section \<open>The data model\<close>

datatype required_arg = NO_ARG | Required bool

text \<open>
  The keyword arguments of \<^verbatim>\<open>bindparam\<close> after \<^verbatim>\<open>value\<close>, in the order of the signature.
  The type engine argument is named by a string, the callable is a reference.
\<close>

record config =
  cfg_type :: "string option"
  cfg_unique :: bool
  cfg_required :: required_arg
  cfg_quote :: "bool option"
  cfg_callable :: "ref option"
  cfg_expanding :: bool
  cfg_isoutparam :: bool
  cfg_literal_execute :: bool

definition default_config :: config where
  "default_config =
     \<lparr>cfg_type = None, cfg_unique = False, cfg_required = NO_ARG, cfg_quote = None,
      cfg_callable = None, cfg_expanding = False, cfg_isoutparam = False,
      cfg_literal_execute = False\<rparr>"

record bind_parameter =
  bp_key :: string
  bp_value :: ref
  bp_config :: config

text \<open>
  Modelled from the spec: \<^verbatim>\<open>sqlalchemy.bindparam\<close>, the constructor of BindParameter, is
  the engine's and not in the repository. The spec has it build an opaque record of the
  key, the original value and the configuration bundle, stored and forwarded unmodified.
\<close>

definition sa_bindparam :: "string \<Rightarrow> ref \<Rightarrow> config \<Rightarrow> bind_parameter" where
  "sa_bindparam key obj cfg = \<lparr>bp_key = key, bp_value = obj, bp_config = cfg\<rparr>"

text \<open>
  The four fields of \<^verbatim>\<open>QueryContext\<close>. \<^verbatim>\<open>_binds_values\<close> and \<^verbatim>\<open>_binds\<close> are
  dictionaries, kept as association lists in insertion order.
\<close>

record qctx =
  aliases :: "string fset"
  binds_values :: "(string \<times> (ref \<times> string) list) list"
  binds_count :: int
  binds :: "(string \<times> bind_parameter) list"

definition init :: qctx where
  "init = \<lparr>aliases = {||}, binds_values = [], binds_count = 0, binds = []\<rparr>"

section \<open>The operations\<close>

text \<open>The loop of \<^verbatim>\<open>bindparam\<close> over a type group: the key of the first entry whose value
  is the given object.\<close>

fun scan :: "(ref \<times> string) list \<Rightarrow> ref \<Rightarrow> string option" where
  "scan [] obj = None"
| "scan ((bind_value, bind_key) # rest) obj =
     (if bind_value = obj then Some bind_key else scan rest obj)"

text \<open>Lines 72 to 89: mint the key, append to the type group (the list held by the
  dictionary), store the new BindParameter.\<close>

definition register_bind ::
  "qctx \<Rightarrow> string \<Rightarrow> (ref \<times> string) list \<Rightarrow> ref \<Rightarrow> config \<Rightarrow> string \<times> qctx" where
  "register_bind s value_type type_group obj cfg =
     (let key = ''b'' @ str_int (binds_count s) in
      (key,
       s\<lparr>binds_values := dict_set value_type (type_group @ [(obj, key)]) (binds_values s),
         binds_count := binds_count s + 1,
         binds := dict_set key (sa_bindparam key obj cfg) (binds s)\<rparr>))"

definition bindparam :: "'v heap \<Rightarrow> qctx \<Rightarrow> ref \<Rightarrow> config \<Rightarrow> string \<times> qctx" where
  "bindparam h s obj cfg =
     (let value_type = obj_type (h obj) in
      case map_of (binds_values s) value_type of
        None \<Rightarrow> register_bind s value_type [] obj cfg
      | Some type_group \<Rightarrow>
          (case scan type_group obj of
             Some bind_key \<Rightarrow> (bind_key, s)
           | None \<Rightarrow> register_bind s value_type type_group obj cfg))"

definition get_bindparams :: "qctx \<Rightarrow> bind_parameter list" where
  "get_bindparams s = map snd (binds s)"

definition alias_name :: "qctx \<Rightarrow> string \<Rightarrow> string \<times> qctx" where
  "alias_name s name =
     (let name' = (if name |\<in>| aliases s
                   then name @ ''_'' @ str_int (int (fcard (aliases s)))
                   else name)
      in (name', s\<lparr>aliases := finsert name' (aliases s)\<rparr>))"

subsection \<open>Sequences of calls on one context\<close>

datatype call = Bindparam ref config | Get_bindparams | Alias string

datatype result = Key string | Params "bind_parameter list" | Name string

fun step :: "'v heap \<Rightarrow> qctx \<Rightarrow> call \<Rightarrow> result \<times> qctx" where
  "step h s (Bindparam obj cfg) = (let (k, s') = bindparam h s obj cfg in (Key k, s'))"
| "step h s Get_bindparams = (Params (get_bindparams s), s)"
| "step h s (Alias name) = (let (n, s') = alias_name s name in (Name n, s'))"

fun run :: "'v heap \<Rightarrow> qctx \<Rightarrow> call list \<Rightarrow> result list \<times> qctx" where
  "run h s [] = ([], s)"
| "run h s (c # cs) =
     (let (r, s') = step h s c; (rs, s'') = run h s' cs in (r # rs, s''))"

definition exec :: "'v heap \<Rightarrow> qctx \<Rightarrow> call list \<Rightarrow> qctx" where
  "exec h s cs = snd (run h s cs)"

text \<open>The same with a store for each call: the objects as they are when the call is made.\<close>

fun run_in :: "qctx \<Rightarrow> ('v heap \<times> call) list \<Rightarrow> result list \<times> qctx" where
  "run_in s [] = ([], s)"
| "run_in s ((h, c) # hcs) =
     (let (r, s') = step h s c; (rs, s'') = run_in s' hcs in (r # rs, s''))"

definition exec_in :: "qctx \<Rightarrow> ('v heap \<times> call) list \<Rightarrow> qctx" where
  "exec_in s hcs = snd (run_in s hcs)"

text \<open>Every registration in the sequence sees its object at the type the store \<open>h\<close> gives
  it: no object changes its runtime type between its registrations.\<close>

definition types_fixed :: "'v heap \<Rightarrow> ('v heap \<times> call) list \<Rightarrow> bool" where
  "types_fixed h hcs =
     list_all (\<lambda>(h', c). case c of
                 Bindparam obj cfg \<Rightarrow> obj_type (h' obj) = obj_type (h obj)
               | Get_bindparams \<Rightarrow> True
               | Alias name \<Rightarrow> True) hcs"

subsection \<open>Observations on a context\<close>

text \<open>What lines 63 to 70 of \<^verbatim>\<open>bindparam\<close> find for an object: the key the loop returns,
  or \<open>None\<close> when the type has no group or the loop ends without returning.\<close>

definition find_bind :: "'v heap \<Rightarrow> qctx \<Rightarrow> ref \<Rightarrow> string option" where
  "find_bind h s obj =
     (case map_of (binds_values s) (obj_type (h obj)) of
        None \<Rightarrow> None
      | Some type_group \<Rightarrow> scan type_group obj)"

text \<open>All (value, key) pairs of the type groups.\<close>

definition all_pairs :: "qctx \<Rightarrow> (ref \<times> string) list" where
  "all_pairs s = concat (map snd (binds_values s))"

text \<open>The keys that a sequence of calls mints (the calls that reach line 72), in order.\<close>

fun minted_keys :: "'v heap \<Rightarrow> qctx \<Rightarrow> call list \<Rightarrow> string list" where
  "minted_keys h s [] = []"
| "minted_keys h s (Bindparam obj cfg # cs) =
     (if find_bind h s obj = None then [fst (bindparam h s obj cfg)] else [])
     @ minted_keys h (snd (bindparam h s obj cfg)) cs"
| "minted_keys h s (Get_bindparams # cs) = minted_keys h s cs"
| "minted_keys h s (Alias name # cs) = minted_keys h (snd (alias_name s name)) cs"

text \<open>The BindParameters that a sequence of calls constructs (line 76), in order.\<close>

fun minted_binds :: "'v heap \<Rightarrow> qctx \<Rightarrow> call list \<Rightarrow> bind_parameter list" where
  "minted_binds h s [] = []"
| "minted_binds h s (Bindparam obj cfg # cs) =
     (if find_bind h s obj = None
      then [sa_bindparam (fst (bindparam h s obj cfg)) obj cfg] else [])
     @ minted_binds h (snd (bindparam h s obj cfg)) cs"
| "minted_binds h s (Get_bindparams # cs) = minted_binds h s cs"
| "minted_binds h s (Alias name # cs) = minted_binds h (snd (alias_name s name)) cs"

text \<open>The same for calls that each have their store.\<close>

fun minted_binds_in :: "qctx \<Rightarrow> ('v heap \<times> call) list \<Rightarrow> bind_parameter list" where
  "minted_binds_in s [] = []"
| "minted_binds_in s ((h, Bindparam obj cfg) # hcs) =
     (if find_bind h s obj = None
      then [sa_bindparam (fst (bindparam h s obj cfg)) obj cfg] else [])
     @ minted_binds_in (snd (bindparam h s obj cfg)) hcs"
| "minted_binds_in s ((h, Get_bindparams) # hcs) = minted_binds_in s hcs"
| "minted_binds_in s ((h, Alias name) # hcs) = minted_binds_in (snd (alias_name s name)) hcs"

text \<open>The objects that a sequence of calls passes to \<^verbatim>\<open>bindparam\<close>.\<close>

fun bound_objs :: "call list \<Rightarrow> ref list" where
  "bound_objs [] = []"
| "bound_objs (Bindparam obj cfg # cs) = obj # bound_objs cs"
| "bound_objs (Get_bindparams # cs) = bound_objs cs"
| "bound_objs (Alias name # cs) = bound_objs cs"

subsection \<open>Invariants\<close>


text \<open>
  What holds of every context reached from \<^const>\<open>init\<close>: the counter is not negative; the
  keys of \<^verbatim>\<open>_binds\<close> are those minted below the counter, in order; every stored
  BindParameter is filed under a (value, key) pair of the groups and conversely; an object
  is in the groups once; the groups' dictionary has one entry per type, and every entry
  holds objects of that type.
\<close>

definition ctx_inv :: "'v heap \<Rightarrow> qctx \<Rightarrow> bool" where
  "ctx_inv h s \<longleftrightarrow>
     0 \<le> binds_count s \<and>
     map fst (binds s) = map (\<lambda>i. ''b'' @ str_int i) [0 .. binds_count s - 1] \<and>
     mset (map (\<lambda>(k, bp). (bp_value bp, k)) (binds s)) = mset (all_pairs s) \<and>
     distinct (map fst (all_pairs s)) \<and>
     distinct (map fst (binds_values s)) \<and>
     list_all (\<lambda>(t, g). list_all (\<lambda>(v, k). obj_type (h v) = t) g) (binds_values s)"

text \<open>
  The part of it that does not depend on the objects' types: the counter, the keys of
  \<^verbatim>\<open>_binds\<close> in minting order, and every stored BindParameter under its own key.
\<close>

definition reg_inv :: "qctx \<Rightarrow> bool" where
  "reg_inv s \<longleftrightarrow>
     0 \<le> binds_count s \<and>
     map fst (binds s) = map (\<lambda>i. ''b'' @ str_int i) [0 .. binds_count s - 1] \<and>
     list_all (\<lambda>(k, bp). bp_key bp = k) (binds s)"

subsection \<open>A registry over one flat list\<close>

text \<open>
  The simpler implementation the specification describes: one ordered list of all
  registered (value, key) pairs, scanned with the same identity comparison; everything
  else as in \<^const>\<open>bindparam\<close>.
\<close>

record flat_ctx =
  flat_aliases :: "string fset"
  flat_values :: "(ref \<times> string) list"
  flat_count :: int
  flat_binds :: "(string \<times> bind_parameter) list"

definition flat_init :: flat_ctx where
  "flat_init = \<lparr>flat_aliases = {||}, flat_values = [], flat_count = 0, flat_binds = []\<rparr>"

definition flat_bindparam :: "flat_ctx \<Rightarrow> ref \<Rightarrow> config \<Rightarrow> string \<times> flat_ctx" where
  "flat_bindparam f obj cfg =
     (case scan (flat_values f) obj of
        Some bind_key \<Rightarrow> (bind_key, f)
      | None \<Rightarrow>
          (let key = ''b'' @ str_int (flat_count f) in
           (key,
            f\<lparr>flat_values := flat_values f @ [(obj, key)],
              flat_count := flat_count f + 1,
              flat_binds := dict_set key (sa_bindparam key obj cfg) (flat_binds f)\<rparr>)))"

definition flat_get_bindparams :: "flat_ctx \<Rightarrow> bind_parameter list" where
  "flat_get_bindparams f = map snd (flat_binds f)"

definition flat_alias :: "flat_ctx \<Rightarrow> string \<Rightarrow> string \<times> flat_ctx" where
  "flat_alias f name =
     (let name' = (if name |\<in>| flat_aliases f
                   then name @ ''_'' @ str_int (int (fcard (flat_aliases f)))
                   else name)
      in (name', f\<lparr>flat_aliases := finsert name' (flat_aliases f)\<rparr>))"

fun flat_step :: "flat_ctx \<Rightarrow> call \<Rightarrow> result \<times> flat_ctx" where
  "flat_step f (Bindparam obj cfg) = (let (k, f') = flat_bindparam f obj cfg in (Key k, f'))"
| "flat_step f Get_bindparams = (Params (flat_get_bindparams f), f)"
| "flat_step f (Alias name) = (let (n, f') = flat_alias f name in (Name n, f'))"

fun flat_run :: "flat_ctx \<Rightarrow> call list \<Rightarrow> result list \<times> flat_ctx" where
  "flat_run f [] = ([], f)"
| "flat_run f (c # cs) =
     (let (r, f') = flat_step f c; (rs, f'') = flat_run f' cs in (r # rs, f''))"

text \<open>The two registries correspond: same aliases, counter and stored BindParameters, and
  the flat list finds for every object what the type groups find.\<close>

definition flat_rel :: "'v heap \<Rightarrow> flat_ctx \<Rightarrow> qctx \<Rightarrow> bool" where
  "flat_rel h f s \<longleftrightarrow>
     flat_aliases f = aliases s \<and> flat_count f = binds_count s \<and> flat_binds f = binds s \<and>
     (\<forall>w. scan (flat_values f) w = find_bind h s w)"

subsection \<open>A store for examples\<close>

text \<open>Every reference holds an \<^verbatim>\<open>int\<close> object of value 42: distinct objects, equal by value.\<close>

definition int_heap :: "int heap" where
  "int_heap r = \<lparr>obj_type = ''int'', obj_val = 42\<rparr>"

text \<open>An object of class \<^verbatim>\<open>A\<close>, and the same object after \<^verbatim>\<open>x.__class__ = B\<close>.\<close>

definition class_A_heap :: "int heap" where
  "class_A_heap r = \<lparr>obj_type = ''A'', obj_val = 0\<rparr>"

definition class_B_heap :: "int heap" where
  "class_B_heap r = \<lparr>obj_type = ''B'', obj_val = 0\<rparr>"

section \<open>Formatting and dictionaries\<close>

lemma str_nat_digit: "n < 10 \<Longrightarrow> str_nat n = [digit_chars ! n]"
  by (simp add: str_nat.simps)

lemma digit_chars_inj:
  "d < 10 \<Longrightarrow> e < 10 \<Longrightarrow> digit_chars ! d = digit_chars ! e \<Longrightarrow> d = e"
proof -
  assume a: "d < 10" "e < 10" "digit_chars ! d = digit_chars ! e"
  have "distinct digit_chars" by (simp add: digit_chars_def)
  moreover have "length digit_chars = 10" by (simp add: digit_chars_def)
  ultimately show ?thesis using a by (simp add: nth_eq_iff_index_eq)
qed

lemma str_nat_nonempty: "str_nat n \<noteq> []"
  by (subst str_nat.simps) simp

lemma str_nat_step: "\<not> n < 10 \<Longrightarrow> str_nat n = str_nat (n div 10) @ [digit_chars ! (n mod 10)]"
  by (subst str_nat.simps) simp

lemma str_nat_inj: "str_nat m = str_nat n \<Longrightarrow> m = n"
proof (induction m arbitrary: n rule: str_nat.induct)
  case (1 m)
  show ?case
  proof (cases "m < 10")
    case True
    show ?thesis
    proof (cases "n < 10")
      case True
      with \<open>m < 10\<close> "1.prems" show ?thesis
        by (simp add: str_nat_digit digit_chars_inj)
    next
      case False
      with \<open>m < 10\<close> "1.prems" str_nat_nonempty [of "n div 10"] show ?thesis
        by (auto simp: str_nat_digit str_nat_step)
    qed
  next
    case False
    show ?thesis
    proof (cases "n < 10")
      case True
      with False "1.prems" str_nat_nonempty [of "m div 10"] show ?thesis
        by (auto simp: str_nat_digit str_nat_step)
    next
      case n: False
      from False n "1.prems"
      have eq: "str_nat (m div 10) = str_nat (n div 10)"
        and dg: "digit_chars ! (m mod 10) = digit_chars ! (n mod 10)"
        by (simp_all add: str_nat_step)
      from "1.IH" [OF False eq] have "m div 10 = n div 10" .
      moreover from dg have "m mod 10 = n mod 10"
        by (intro digit_chars_inj) simp_all
      ultimately show ?thesis
        by (metis div_mult_mod_eq)
    qed
  qed
qed

lemma str_int_inj: "0 \<le> i \<Longrightarrow> 0 \<le> j \<Longrightarrow> str_int i = str_int j \<Longrightarrow> i = j"
  by (auto simp: str_int_def dest: str_nat_inj)

lemma map_of_dict_set: "map_of (dict_set k v al) = (map_of al)(k \<mapsto> v)"
  by (induction al) auto

lemma dict_set_fresh: "k \<notin> fst ` set al \<Longrightarrow> dict_set k v al = al @ [(k, v)]"
  by (induction al) auto

lemma keys_dict_set: "fst ` set (dict_set k v al) = insert k (fst ` set al)"
  by (induction al) auto

lemma set_dict_set: "set (dict_set k v al) \<subseteq> insert (k, v) (set al)"
  by (induction al) auto

lemma distinct_dict_set: "distinct (map fst al) \<Longrightarrow> distinct (map fst (dict_set k v al))"
  by (induction al) (auto simp: keys_dict_set)

lemma concat_dict_set_None:
  "map_of al k = None \<Longrightarrow> concat (map snd (dict_set k v al)) = concat (map snd al) @ v"
  by (induction al) (auto split: if_splits)

lemma mset_concat_dict_set_Some:
  "map_of al k = Some g \<Longrightarrow>
   mset (concat (map snd (dict_set k (g @ x) al))) = mset (concat (map snd al)) + mset x"
  by (induction al) (auto split: if_splits)

section \<open>Lookup and registration\<close>

lemma exec_Nil: "exec h s [] = s"
  by (simp add: exec_def)

lemma exec_Cons: "exec h s (c # cs) = exec h (snd (step h s c)) cs"
  by (simp add: exec_def split: prod.splits)

lemma exec_append: "exec h s (cs @ ds) = exec h (exec h s cs) ds"
  by (induction cs arbitrary: s) (simp_all add: exec_Nil exec_Cons)

lemma step_Bindparam: "snd (step h s (Bindparam obj cfg)) = snd (bindparam h s obj cfg)"
  by (simp split: prod.splits)

lemma step_Alias: "snd (step h s (Alias n)) = snd (alias_name s n)"
  by (simp split: prod.splits)

lemma bindparam_hit: "find_bind h s obj = Some k \<Longrightarrow> bindparam h s obj cfg = (k, s)"
  by (auto simp: find_bind_def bindparam_def split: option.splits)

lemma bindparam_miss:
  "find_bind h s obj = None \<Longrightarrow>
   bindparam h s obj cfg =
     register_bind s (obj_type (h obj))
       (case map_of (binds_values s) (obj_type (h obj)) of None \<Rightarrow> [] | Some g \<Rightarrow> g) obj cfg"
  by (auto simp: find_bind_def bindparam_def split: option.splits)

lemma scan_append:
  "scan (g @ g') obj = (case scan g obj of Some k \<Rightarrow> Some k | None \<Rightarrow> scan g' obj)"
  by (induction g) auto

lemma find_bind_register:
  assumes "find_bind h s obj = None"
  shows "find_bind h (snd (bindparam h s obj cfg)) w =
           (if w = obj then Some (''b'' @ str_int (binds_count s)) else find_bind h s w)"
  using assms
  by (auto simp: bindparam_miss register_bind_def Let_def find_bind_def map_of_dict_set scan_append
      split: option.splits)

lemma find_bind_bindparam_self:
  "find_bind h (snd (bindparam h s obj cfg)) obj = Some (fst (bindparam h s obj cfg))"
proof (cases "find_bind h s obj")
  case None
  then show ?thesis
    by (simp add: find_bind_register) (simp add: bindparam_miss register_bind_def Let_def)
next
  case (Some k)
  then show ?thesis by (simp add: bindparam_hit)
qed

lemma find_bind_bindparam_keep:
  "find_bind h s w = Some k \<Longrightarrow> find_bind h (snd (bindparam h s obj cfg)) w = Some k"
proof (cases "find_bind h s obj")
  case None
  assume "find_bind h s w = Some k"
  with None show ?thesis by (auto simp: find_bind_register)
next
  case (Some k')
  assume "find_bind h s w = Some k"
  with Some show ?thesis by (simp add: bindparam_hit)
qed

lemma find_bind_step_keep:
  "find_bind h s w = Some k \<Longrightarrow> find_bind h (snd (step h s c)) w = Some k"
proof (cases c)
  case (Bindparam obj cfg)
  assume "find_bind h s w = Some k"
  then show ?thesis unfolding Bindparam step_Bindparam by (rule find_bind_bindparam_keep)
next
  case Get_bindparams
  assume "find_bind h s w = Some k"
  then show ?thesis using Get_bindparams by simp
next
  case (Alias n)
  assume "find_bind h s w = Some k"
  then show ?thesis using Alias by (simp add: alias_name_def Let_def find_bind_def)
qed

lemma find_bind_exec_keep:
  "find_bind h s w = Some k \<Longrightarrow> find_bind h (exec h s cs) w = Some k"
  by (induction cs arbitrary: s) (simp_all add: exec_Nil exec_Cons find_bind_step_keep)

lemma bindparam_again:
  "bindparam h (exec h (snd (bindparam h s obj c1)) cs) obj c2 =
     (fst (bindparam h s obj c1), exec h (snd (bindparam h s obj c1)) cs)"
  by (rule bindparam_hit) (rule find_bind_exec_keep, rule find_bind_bindparam_self)

lemma alias_name_frame:
  "binds_values (snd (alias_name s n)) = binds_values s"
  "binds_count (snd (alias_name s n)) = binds_count s"
  "binds (snd (alias_name s n)) = binds s"
  by (simp_all add: alias_name_def Let_def)

lemma minted_keys_from:
  "minted_keys h s cs =
     map (\<lambda>i. ''b'' @ str_int i) [binds_count s .. binds_count s + int (length (minted_keys h s cs)) - 1]"
proof (induction h s cs rule: minted_keys.induct)
  case (1 h s)
  then show ?case by simp
next
  case (2 h s obj cfg cs)
  show ?case
  proof (cases "find_bind h s obj")
    case None
    then have k: "fst (bindparam h s obj cfg) = ''b'' @ str_int (binds_count s)"
      and c: "binds_count (snd (bindparam h s obj cfg)) = binds_count s + 1"
      by (simp_all add: bindparam_miss register_bind_def Let_def)
    define n where "n = length (minted_keys h (snd (bindparam h s obj cfg)) cs)"
    have u: "[binds_count s .. binds_count s + int (Suc n) - 1] =
               binds_count s # [binds_count s + 1 .. binds_count s + 1 + int n - 1]"
      by (subst upto_rec1) (simp_all add: algebra_simps)
    have "minted_keys h s (Bindparam obj cfg # cs) =
            (''b'' @ str_int (binds_count s)) # minted_keys h (snd (bindparam h s obj cfg)) cs"
      using None by (simp add: k)
    also have "minted_keys h (snd (bindparam h s obj cfg)) cs =
            map (\<lambda>i. ''b'' @ str_int i) [binds_count s + 1 .. binds_count s + 1 + int n - 1]"
      using 2 unfolding n_def c .
    finally have m: "minted_keys h s (Bindparam obj cfg # cs) =
            map (\<lambda>i. ''b'' @ str_int i) [binds_count s .. binds_count s + int (Suc n) - 1]"
      by (simp only: u list.map)
    have len: "length (minted_keys h s (Bindparam obj cfg # cs)) = Suc n"
      using None by (simp add: n_def)
    show ?thesis unfolding len by (rule m)
  next
    case (Some k)
    then show ?thesis using 2 by (simp add: bindparam_hit)
  qed
next
  case (3 h s cs)
  then show ?case by simp
next
  case (4 h s name cs)
  then show ?case by (simp add: alias_name_frame)
qed

section \<open>The invariant of reachable contexts\<close>

lemma ctx_inv_init: "ctx_inv h init"
  by (simp add: ctx_inv_def init_def all_pairs_def)

lemma scan_Some_mem: "scan g obj = Some k \<Longrightarrow> (obj, k) \<in> set g"
  by (induction g) (auto split: if_splits)

lemma scan_None_iff: "scan g obj = None \<longleftrightarrow> obj \<notin> fst ` set g"
  by (induction g) (auto split: if_splits)

lemma find_bind_mem: "find_bind h s obj = Some k \<Longrightarrow> (obj, k) \<in> set (all_pairs s)"
  by (auto simp: find_bind_def all_pairs_def split: option.splits
      dest!: scan_Some_mem map_of_SomeD intro!: bexI)

lemma find_bind_None_iff:
  assumes "ctx_inv h s"
  shows "find_bind h s obj = None \<longleftrightarrow> obj \<notin> fst ` set (all_pairs s)"
proof
  assume "find_bind h s obj = None"
  show "obj \<notin> fst ` set (all_pairs s)"
  proof
    assume "obj \<in> fst ` set (all_pairs s)"
    then obtain k t g where tg: "(t, g) \<in> set (binds_values s)" and m: "(obj, k) \<in> set g"
      by (auto simp: all_pairs_def)
    from assms tg m have "obj_type (h obj) = t"
      by (auto simp: ctx_inv_def list_all_iff)
    moreover from assms tg have "map_of (binds_values s) t = Some g"
      by (simp add: ctx_inv_def)
    ultimately have "find_bind h s obj = scan g obj"
      by (simp add: find_bind_def)
    with m \<open>find_bind h s obj = None\<close> show False
      by (force simp: scan_None_iff)
  qed
next
  assume "obj \<notin> fst ` set (all_pairs s)"
  then show "find_bind h s obj = None"
    by (cases "find_bind h s obj") (force dest: find_bind_mem)+
qed

lemma fresh_key:
  assumes "ctx_inv h s"
  shows "''b'' @ str_int (binds_count s) \<notin> fst ` set (binds s)"
proof
  assume "''b'' @ str_int (binds_count s) \<in> fst ` set (binds s)"
  then have "''b'' @ str_int (binds_count s) \<in> set (map fst (binds s))" by simp
  with assms obtain i where "0 \<le> i" "i \<le> binds_count s - 1"
    and "''b'' @ str_int (binds_count s) = ''b'' @ str_int i"
    unfolding ctx_inv_def by auto
  moreover from assms have "0 \<le> binds_count s" by (simp add: ctx_inv_def)
  ultimately show False using str_int_inj [of "binds_count s" i] by simp
qed

lemma register_new:
  assumes "find_bind h s obj = None"
  shows "fst (bindparam h s obj cfg) = ''b'' @ str_int (binds_count s)"
    and "binds_count (snd (bindparam h s obj cfg)) = binds_count s + 1"
    and "aliases (snd (bindparam h s obj cfg)) = aliases s"
    and "binds (snd (bindparam h s obj cfg)) =
           dict_set (''b'' @ str_int (binds_count s))
             (sa_bindparam (''b'' @ str_int (binds_count s)) obj cfg) (binds s)"
    and "mset (all_pairs (snd (bindparam h s obj cfg))) =
           mset (all_pairs s) + {#(obj, ''b'' @ str_int (binds_count s))#}"
    and "set (binds_values (snd (bindparam h s obj cfg))) \<subseteq>
           insert (obj_type (h obj),
                   (case map_of (binds_values s) (obj_type (h obj)) of None \<Rightarrow> [] | Some g \<Rightarrow> g)
                   @ [(obj, ''b'' @ str_int (binds_count s))]) (set (binds_values s))"
    and "distinct (map fst (binds_values s)) \<Longrightarrow>
           distinct (map fst (binds_values (snd (bindparam h s obj cfg))))"
  using assms
  by (auto simp: bindparam_miss register_bind_def Let_def all_pairs_def concat_dict_set_None
      mset_concat_dict_set_Some distinct_dict_set split: option.splits dest: subsetD [OF set_dict_set])

lemma binds_register:
  assumes "ctx_inv h s" "find_bind h s obj = None"
  shows "binds (snd (bindparam h s obj cfg)) =
           binds s @ [(''b'' @ str_int (binds_count s),
                       sa_bindparam (''b'' @ str_int (binds_count s)) obj cfg)]"
  using assms fresh_key [OF assms(1)] by (simp add: register_new(4) dict_set_fresh)

lemma ctx_inv_bindparam:
  assumes inv: "ctx_inv h s"
  shows "ctx_inv h (snd (bindparam h s obj cfg))"
proof (cases "find_bind h s obj")
  case (Some k)
  with inv show ?thesis by (simp add: bindparam_hit)
next
  case None
  let ?s = "snd (bindparam h s obj cfg)"
  let ?k = "''b'' @ str_int (binds_count s)"
  note new = register_new [OF None, of cfg]
  have b: "binds ?s = binds s @ [(?k, sa_bindparam ?k obj cfg)]"
    using inv None by (rule binds_register)
  from inv have c0: "0 \<le> binds_count s" by (simp add: ctx_inv_def)
  have 1: "0 \<le> binds_count ?s" using c0 by (simp add: new(2))
  have "[0 .. binds_count s] = [0 .. binds_count s - 1] @ [binds_count s]"
    using c0 by (rule upto_rec2)
  with inv have 2: "map fst (binds ?s) = map (\<lambda>i. ''b'' @ str_int i) [0 .. binds_count ?s - 1]"
    by (simp add: b new(2) ctx_inv_def)
  from inv have 3: "mset (map (\<lambda>(k, bp). (bp_value bp, k)) (binds ?s)) = mset (all_pairs ?s)"
    by (simp add: b new(5) ctx_inv_def sa_bindparam_def)
  have "obj \<notin> fst ` set (all_pairs s)"
    using None find_bind_None_iff [OF inv] by simp
  moreover have "mset (map fst (all_pairs ?s)) = mset (map fst (all_pairs s) @ [obj])"
    by (simp add: new(5))
  ultimately have 4: "distinct (map fst (all_pairs ?s))"
    using inv mset_eq_imp_distinct_iff [of "map fst (all_pairs ?s)" "map fst (all_pairs s) @ [obj]"]
    by (simp add: ctx_inv_def)
  from inv have 5: "distinct (map fst (binds_values ?s))"
    by (simp add: new(7) ctx_inv_def)
  have g: "list_all (\<lambda>(v, k). obj_type (h v) = obj_type (h obj))
             (case map_of (binds_values s) (obj_type (h obj)) of None \<Rightarrow> [] | Some g \<Rightarrow> g)"
    using inv by (auto simp: ctx_inv_def list_all_iff split: option.splits dest!: map_of_SomeD)
  have 6: "list_all (\<lambda>(t, g). list_all (\<lambda>(v, k). obj_type (h v) = t) g) (binds_values ?s)"
    unfolding list_all_iff
  proof
    fix p assume "p \<in> set (binds_values ?s)"
    with new(6) have "p = (obj_type (h obj),
        (case map_of (binds_values s) (obj_type (h obj)) of None \<Rightarrow> [] | Some g \<Rightarrow> g) @ [(obj, ?k)])
        \<or> p \<in> set (binds_values s)"
      by auto
    then show "case p of (t, g) \<Rightarrow> \<forall>x\<in>set g. case x of (v, k) \<Rightarrow> obj_type (h v) = t"
    proof
      assume "p = (obj_type (h obj),
        (case map_of (binds_values s) (obj_type (h obj)) of None \<Rightarrow> [] | Some g \<Rightarrow> g) @ [(obj, ?k)])"
      with g show ?thesis by (simp add: list_all_iff)
    next
      assume "p \<in> set (binds_values s)"
      moreover from inv
      have "\<forall>p\<in>set (binds_values s). case p of (t, g) \<Rightarrow> \<forall>x\<in>set g. case x of (v, k) \<Rightarrow> obj_type (h v) = t"
        by (simp add: ctx_inv_def list_all_iff)
      ultimately show ?thesis by blast
    qed
  qed
  show ?thesis unfolding ctx_inv_def by (intro conjI 1 2 3 4 5 6)
qed

lemma ctx_inv_step: "ctx_inv h s \<Longrightarrow> ctx_inv h (snd (step h s c))"
proof (cases c)
  case (Bindparam obj cfg)
  assume "ctx_inv h s"
  then show ?thesis unfolding Bindparam step_Bindparam by (rule ctx_inv_bindparam)
next
  case Get_bindparams
  assume "ctx_inv h s"
  then show ?thesis using Get_bindparams by simp
next
  case (Alias n)
  assume "ctx_inv h s"
  then show ?thesis unfolding Alias step_Alias
    by (simp add: ctx_inv_def all_pairs_def alias_name_frame)
qed

lemma ctx_inv_exec: "ctx_inv h s \<Longrightarrow> ctx_inv h (exec h s cs)"
  by (induction cs arbitrary: s) (simp_all add: exec_Nil exec_Cons ctx_inv_step)




section \<open>Export, the flat registry and stability of stored parameters\<close>


lemma objs_mset:
  assumes "ctx_inv h s"
  shows "map (bp_value \<circ> snd) (binds s) = map bp_value (get_bindparams s)"
    and "mset (map bp_value (get_bindparams s)) = mset (map fst (all_pairs s))"
proof -
  show 1: "map (bp_value \<circ> snd) (binds s) = map bp_value (get_bindparams s)"
    by (simp add: get_bindparams_def)
  from assms have "mset (map (\<lambda>(k, bp). (bp_value bp, k)) (binds s)) = mset (all_pairs s)"
    by (simp add: ctx_inv_def)
  then have "image_mset fst (mset (map (\<lambda>(k, bp). (bp_value bp, k)) (binds s))) =
             image_mset fst (mset (all_pairs s))"
    by (rule arg_cong)
  moreover have "map fst (map (\<lambda>(k, bp). (bp_value bp, k)) (binds s)) = map (bp_value \<circ> snd) (binds s)"
    by (simp add: case_prod_beta)
  ultimately have "mset (map (bp_value \<circ> snd) (binds s)) = mset (map fst (all_pairs s))"
    by (metis mset_map)
  then show "mset (map bp_value (get_bindparams s)) = mset (map fst (all_pairs s))"
    unfolding 1 .
qed

lemma distinct_objs:
  assumes "ctx_inv h s"
  shows "distinct (map bp_value (get_bindparams s))"
proof -
  from assms have "distinct (map fst (all_pairs s))" by (simp add: ctx_inv_def)
  with mset_eq_imp_distinct_iff [OF objs_mset(2) [OF assms]] show ?thesis by simp
qed

lemma objs_bindparam:
  "fst ` set (all_pairs (snd (bindparam h s obj cfg))) = insert obj (fst ` set (all_pairs s))"
proof (cases "find_bind h s obj")
  case None
  from register_new(5) [OF None, of cfg]
  have "set (all_pairs (snd (bindparam h s obj cfg))) =
          insert (obj, ''b'' @ str_int (binds_count s)) (set (all_pairs s))"
    by (metis mset_eq_setD set_mset_add_mset_insert set_mset_mset union_mset_add_mset_right
        add.right_neutral)
  then show ?thesis by simp
next
  case (Some k)
  then have "obj \<in> fst ` set (all_pairs s)" by (force dest: find_bind_mem)
  with Some show ?thesis by (auto simp: bindparam_hit)
qed

lemma objs_exec:
  "fst ` set (all_pairs (exec h s cs)) = fst ` set (all_pairs s) \<union> set (bound_objs cs)"
proof (induction cs arbitrary: s)
  case Nil
  show ?case by (simp add: exec_Nil)
next
  case (Cons c cs)
  show ?case
  proof (cases c)
    case (Bindparam obj cfg)
    then show ?thesis
      by (simp add: exec_Cons Cons.IH del: step.simps add: step_Bindparam objs_bindparam)
  next
    case Get_bindparams
    then show ?thesis by (simp add: exec_Cons Cons.IH)
  next
    case (Alias name)
    have "all_pairs (snd (alias_name s name)) = all_pairs s"
      by (simp add: all_pairs_def alias_name_frame)
    with Alias show ?thesis
      by (simp add: exec_Cons Cons.IH del: step.simps add: step_Alias)
  qed
qed

lemma export_minted:
  "ctx_inv h s \<Longrightarrow> get_bindparams (exec h s cs) = get_bindparams s @ minted_binds h s cs"
proof (induction h s cs rule: minted_binds.induct)
  case (1 h s)
  show ?case by (simp add: exec_Nil)
next
  case (2 h s obj cfg cs)
  from "2.prems" have inv: "ctx_inv h (snd (bindparam h s obj cfg))"
    by (rule ctx_inv_bindparam)
  have e: "exec h s (Bindparam obj cfg # cs) = exec h (snd (bindparam h s obj cfg)) cs"
    by (simp only: exec_Cons step_Bindparam)
  show ?case
  proof (cases "find_bind h s obj")
    case None
    from binds_register [OF "2.prems" None, of cfg] register_new(1) [OF None, of cfg]
    have "get_bindparams (snd (bindparam h s obj cfg)) =
            get_bindparams s @ [sa_bindparam (fst (bindparam h s obj cfg)) obj cfg]"
      by (simp add: get_bindparams_def)
    with "2.IH" [OF inv] None show ?thesis unfolding e by simp
  next
    case (Some k)
    with "2.IH" [OF inv] show ?thesis unfolding e by (simp add: bindparam_hit)
  qed
next
  case (3 h s cs)
  then show ?case by (simp add: exec_Cons)
next
  case (4 h s name cs)
  from "4.prems" have inv: "ctx_inv h (snd (alias_name s name))"
    using ctx_inv_step [of h s "Alias name"] by (simp only: step_Alias)
  have e: "exec h s (Alias name # cs) = exec h (snd (alias_name s name)) cs"
    by (simp only: exec_Cons step_Alias)
  from "4.IH" [OF inv] show ?case unfolding e
    by (simp add: get_bindparams_def alias_name_frame)
qed

lemma minted_binds_keys: "map bp_key (minted_binds h s cs) = minted_keys h s cs"
  by (induction h s cs rule: minted_binds.induct) (simp_all add: sa_bindparam_def)

lemma distinct_minted_keys: "0 \<le> binds_count s \<Longrightarrow> distinct (minted_keys h s cs)"
proof -
  assume c: "0 \<le> binds_count s"
  let ?n = "binds_count s + int (length (minted_keys h s cs)) - 1"
  have "inj_on (\<lambda>i. ''b'' @ str_int i) (set [binds_count s .. ?n])"
  proof (rule inj_onI)
    fix x y
    assume "x \<in> set [binds_count s .. ?n]" "y \<in> set [binds_count s .. ?n]"
      and "''b'' @ str_int x = ''b'' @ str_int y"
    with c have "0 \<le> x" "0 \<le> y" "str_int x = str_int y" by simp_all
    then show "x = y" by (rule str_int_inj)
  qed
  then have "distinct (map (\<lambda>i. ''b'' @ str_int i) [binds_count s .. ?n])"
    by (simp add: distinct_map)
  then show ?thesis using minted_keys_from [of h s cs] by simp
qed

lemma flat_rel_init: "flat_rel h flat_init init"
  by (simp add: flat_rel_def flat_init_def init_def find_bind_def)

lemma flat_bindparam_sim:
  assumes "flat_rel h f s"
  shows "fst (flat_bindparam f obj cfg) = fst (bindparam h s obj cfg)"
    and "flat_rel h (snd (flat_bindparam f obj cfg)) (snd (bindparam h s obj cfg))"
proof -
  from assms have sc: "scan (flat_values f) w = find_bind h s w" for w
    by (simp add: flat_rel_def)
  show "fst (flat_bindparam f obj cfg) = fst (bindparam h s obj cfg)"
  proof (cases "find_bind h s obj")
    case None
    with assms sc [of obj] show ?thesis
      by (simp add: flat_bindparam_def Let_def register_new(1) flat_rel_def)
  next
    case (Some k)
    with sc [of obj] show ?thesis
      by (simp add: flat_bindparam_def bindparam_hit)
  qed
  show "flat_rel h (snd (flat_bindparam f obj cfg)) (snd (bindparam h s obj cfg))"
  proof (cases "find_bind h s obj")
    case None
    have "scan (flat_values f @ [(obj, ''b'' @ str_int (binds_count s))]) w =
            (if w = obj then Some (''b'' @ str_int (binds_count s)) else find_bind h s w)" for w
      using None sc [of w] by (cases "find_bind h s w") (auto simp: scan_append)
    with assms None sc [of obj] show ?thesis
      by (simp add: flat_rel_def flat_bindparam_def Let_def register_new(2,3,4) find_bind_register)
  next
    case (Some k)
    with assms sc [of obj] show ?thesis
      by (simp add: flat_bindparam_def bindparam_hit)
  qed
qed

lemma flat_step_sim:
  assumes "flat_rel h f s"
  shows "fst (flat_step f c) = fst (step h s c)"
    and "flat_rel h (snd (flat_step f c)) (snd (step h s c))"
proof -
  show "fst (flat_step f c) = fst (step h s c)"
  proof (cases c)
    case (Bindparam obj cfg)
    with flat_bindparam_sim(1) [OF assms, of obj cfg] show ?thesis
      by (simp add: case_prod_beta)
  next
    case Get_bindparams
    with assms show ?thesis
      by (simp add: flat_rel_def flat_get_bindparams_def get_bindparams_def)
  next
    case (Alias name)
    with assms show ?thesis
      by (simp add: flat_rel_def flat_alias_def alias_name_def Let_def)
  qed
  show "flat_rel h (snd (flat_step f c)) (snd (step h s c))"
  proof (cases c)
    case (Bindparam obj cfg)
    with flat_bindparam_sim(2) [OF assms, of obj cfg] show ?thesis
      by (simp add: case_prod_beta)
  next
    case Get_bindparams
    with assms show ?thesis by simp
  next
    case (Alias name)
    with assms show ?thesis
      by (simp add: flat_rel_def flat_alias_def alias_name_def Let_def find_bind_def)
  qed
qed

lemma flat_run_sim:
  "flat_rel h f s \<Longrightarrow>
   fst (flat_run f cs) = fst (run h s cs) \<and> flat_rel h (snd (flat_run f cs)) (snd (run h s cs))"
proof (induction cs arbitrary: f s)
  case Nil
  then show ?case by simp
next
  case (Cons c cs)
  from flat_step_sim [OF Cons.prems, of c]
  have 1: "fst (flat_step f c) = fst (step h s c)"
    and 2: "flat_rel h (snd (flat_step f c)) (snd (step h s c))" .
  from Cons.IH [OF 2] 1 show ?case
    by (simp add: case_prod_beta del: flat_step.simps step.simps)
qed



lemma binds_step_keep:
  assumes "ctx_inv h s" "map_of (binds s) k = Some bp"
  shows "map_of (binds (snd (step h s c))) k = Some bp"
proof (cases c)
  case (Bindparam obj cfg)
  show ?thesis unfolding Bindparam step_Bindparam
  proof (cases "find_bind h s obj")
    case None
    from assms(2) have "k \<in> fst ` set (binds s)"
      by (force dest: map_of_SomeD)
    with fresh_key [OF assms(1)] have "k \<noteq> ''b'' @ str_int (binds_count s)" by blast
    with assms(2) show "map_of (binds (snd (bindparam h s obj cfg))) k = Some bp"
      by (simp add: register_new(4) [OF None] map_of_dict_set)
  next
    case (Some k')
    with assms(2) show "map_of (binds (snd (bindparam h s obj cfg))) k = Some bp"
      by (simp add: bindparam_hit)
  qed
next
  case Get_bindparams
  with assms(2) show ?thesis by simp
next
  case (Alias name)
  from assms(2) show ?thesis unfolding Alias step_Alias by (simp add: alias_name_frame)
qed

lemma binds_exec_keep:
  "ctx_inv h s \<Longrightarrow> map_of (binds s) k = Some bp \<Longrightarrow> map_of (binds (exec h s cs)) k = Some bp"
  by (induction cs arbitrary: s) (simp_all add: exec_Nil exec_Cons ctx_inv_step binds_step_keep)


section \<open>Calls under a changing store\<close>

lemma exec_in_Nil: "exec_in s [] = s"
  by (simp add: exec_in_def)

lemma exec_in_Cons: "exec_in s ((h, c) # hcs) = exec_in (snd (step h s c)) hcs"
  by (simp add: exec_in_def split: prod.splits)

lemma bindparam_type_only:
  "obj_type (h' obj) = obj_type (h obj) \<Longrightarrow> bindparam h' s obj cfg = bindparam h s obj cfg"
  by (simp add: bindparam_def)

lemma find_bind_type_only:
  "obj_type (h' obj) = obj_type (h obj) \<Longrightarrow> find_bind h' s obj = find_bind h s obj"
  by (simp add: find_bind_def)

lemma find_bind_bindparam_keep_any:
  assumes "find_bind h s w = Some k"
  shows "find_bind h (snd (bindparam h' s obj cfg)) w = Some k"
proof (cases "find_bind h' s obj")
  case (Some k')
  with assms show ?thesis by (simp add: bindparam_hit)
next
  case None
  let ?t = "obj_type (h' obj)"
  let ?g = "case map_of (binds_values s) ?t of None \<Rightarrow> [] | Some g \<Rightarrow> g"
  let ?e = "(obj, ''b'' @ str_int (binds_count s))"
  have bv: "map_of (binds_values (snd (bindparam h' s obj cfg))) =
              (map_of (binds_values s))(?t \<mapsto> ?g @ [?e])"
    by (simp add: bindparam_miss [OF None] register_bind_def Let_def map_of_dict_set)
  from assms obtain g where g: "map_of (binds_values s) (obj_type (h w)) = Some g"
    and sc: "scan g w = Some k"
    by (auto simp: find_bind_def split: option.splits)
  show ?thesis
  proof (cases "obj_type (h w) = ?t")
    case True
    with g have "?g = g" by simp
    with True sc show ?thesis
      by (simp add: find_bind_def bv scan_append)
  next
    case False
    with g sc show ?thesis
      by (simp add: find_bind_def bv)
  qed
qed

lemma find_bind_step_keep_any:
  "find_bind h s w = Some k \<Longrightarrow> find_bind h (snd (step h' s c)) w = Some k"
proof (cases c)
  case (Bindparam obj cfg)
  assume "find_bind h s w = Some k"
  then show ?thesis unfolding Bindparam step_Bindparam by (rule find_bind_bindparam_keep_any)
next
  case Get_bindparams
  assume "find_bind h s w = Some k"
  then show ?thesis using Get_bindparams by simp
next
  case (Alias n)
  assume "find_bind h s w = Some k"
  then show ?thesis using Alias by (simp add: alias_name_def Let_def find_bind_def)
qed

lemma find_bind_exec_in_keep:
  "find_bind h s w = Some k \<Longrightarrow> find_bind h (exec_in s hcs) w = Some k"
proof (induction hcs arbitrary: s)
  case Nil
  then show ?case by (simp add: exec_in_Nil)
next
  case (Cons p hcs)
  obtain h' c where p: "p = (h', c)" by (cases p)
  from Cons.prems have "find_bind h (snd (step h' s c)) w = Some k"
    by (rule find_bind_step_keep_any)
  then show ?case unfolding p exec_in_Cons by (rule Cons.IH)
qed

lemma bindparam_again_in:
  assumes "obj_type (h2 obj) = obj_type (h1 obj)"
  shows "bindparam h2 (exec_in (snd (bindparam h1 s obj c1)) hcs) obj c2 =
           (fst (bindparam h1 s obj c1), exec_in (snd (bindparam h1 s obj c1)) hcs)"
proof -
  have "find_bind h1 (snd (bindparam h1 s obj c1)) obj = Some (fst (bindparam h1 s obj c1))"
    by (rule find_bind_bindparam_self)
  then have "find_bind h1 (exec_in (snd (bindparam h1 s obj c1)) hcs) obj =
               Some (fst (bindparam h1 s obj c1))"
    by (rule find_bind_exec_in_keep)
  then have "find_bind h2 (exec_in (snd (bindparam h1 s obj c1)) hcs) obj =
               Some (fst (bindparam h1 s obj c1))"
    using find_bind_type_only [of h2 obj h1] assms by simp
  then show ?thesis by (rule bindparam_hit)
qed

lemma step_type_only:
  assumes "case c of Bindparam obj cfg \<Rightarrow> obj_type (h' obj) = obj_type (h obj)
           | Get_bindparams \<Rightarrow> True | Alias name \<Rightarrow> True"
  shows "step h' s c = step h s c"
proof (cases c)
  case (Bindparam obj cfg)
  with assms have "bindparam h' s obj cfg = bindparam h s obj cfg"
    by (simp add: bindparam_def)
  with Bindparam show ?thesis by simp
next
  case Get_bindparams
  then show ?thesis by simp
next
  case (Alias name)
  then show ?thesis by simp
qed

lemma run_in_fixed: "types_fixed h hcs \<Longrightarrow> run_in s hcs = run h s (map snd hcs)"
proof (induction hcs arbitrary: s)
  case Nil
  show ?case by simp
next
  case (Cons p hcs)
  obtain h' c where p: "p = (h', c)" by (cases p)
  from Cons.prems have 1: "step h' s c = step h s c" and 2: "types_fixed h hcs"
    unfolding p types_fixed_def by (simp_all add: step_type_only [where c = c and h' = h' and h = h])
  from Cons.IH [OF 2] show ?case
    unfolding p by (simp add: 1 del: step.simps)
qed

lemma exec_in_fixed: "types_fixed h hcs \<Longrightarrow> exec_in s hcs = exec h s (map snd hcs)"
  by (simp add: exec_in_def exec_def run_in_fixed [of h hcs])

lemma reg_inv_init: "reg_inv init"
  by (simp add: reg_inv_def init_def)

lemma fresh_key_reg:
  assumes "reg_inv s"
  shows "''b'' @ str_int (binds_count s) \<notin> fst ` set (binds s)"
proof
  assume "''b'' @ str_int (binds_count s) \<in> fst ` set (binds s)"
  then have "''b'' @ str_int (binds_count s) \<in> set (map fst (binds s))" by simp
  with assms obtain i where "0 \<le> i" "i \<le> binds_count s - 1"
    and "''b'' @ str_int (binds_count s) = ''b'' @ str_int i"
    unfolding reg_inv_def by auto
  moreover from assms have "0 \<le> binds_count s" by (simp add: reg_inv_def)
  ultimately show False using str_int_inj [of "binds_count s" i] by simp
qed

lemma binds_register_reg:
  assumes "reg_inv s" "find_bind h s obj = None"
  shows "binds (snd (bindparam h s obj cfg)) =
           binds s @ [(''b'' @ str_int (binds_count s),
                       sa_bindparam (''b'' @ str_int (binds_count s)) obj cfg)]"
  using assms fresh_key_reg [OF assms(1)] by (simp add: register_new(4) dict_set_fresh)

lemma reg_inv_bindparam:
  assumes inv: "reg_inv s"
  shows "reg_inv (snd (bindparam h s obj cfg))"
proof (cases "find_bind h s obj")
  case (Some k)
  with inv show ?thesis by (simp add: bindparam_hit)
next
  case None
  let ?s = "snd (bindparam h s obj cfg)"
  let ?k = "''b'' @ str_int (binds_count s)"
  have b: "binds ?s = binds s @ [(?k, sa_bindparam ?k obj cfg)]"
    using inv None by (rule binds_register_reg)
  have c: "binds_count ?s = binds_count s + 1"
    using None by (rule register_new(2))
  from inv have c0: "0 \<le> binds_count s" by (simp add: reg_inv_def)
  have 1: "0 \<le> binds_count ?s" using c0 by (simp add: c)
  have "[0 .. binds_count s] = [0 .. binds_count s - 1] @ [binds_count s]"
    using c0 by (rule upto_rec2)
  with inv have 2: "map fst (binds ?s) = map (\<lambda>i. ''b'' @ str_int i) [0 .. binds_count ?s - 1]"
    by (simp add: b c reg_inv_def)
  from inv have 3: "list_all (\<lambda>(k, bp). bp_key bp = k) (binds ?s)"
    by (simp add: b reg_inv_def sa_bindparam_def)
  show ?thesis unfolding reg_inv_def by (intro conjI 1 2 3)
qed

lemma reg_inv_step: "reg_inv s \<Longrightarrow> reg_inv (snd (step h s c))"
proof (cases c)
  case (Bindparam obj cfg)
  assume "reg_inv s"
  then show ?thesis unfolding Bindparam step_Bindparam by (rule reg_inv_bindparam)
next
  case Get_bindparams
  assume "reg_inv s"
  then show ?thesis using Get_bindparams by simp
next
  case (Alias n)
  assume "reg_inv s"
  then show ?thesis unfolding Alias step_Alias
    by (simp add: reg_inv_def alias_name_frame)
qed

lemma reg_inv_exec_in: "reg_inv s \<Longrightarrow> reg_inv (exec_in s hcs)"
proof (induction hcs arbitrary: s)
  case Nil
  then show ?case by (simp add: exec_in_Nil)
next
  case (Cons p hcs)
  obtain h c where p: "p = (h, c)" by (cases p)
  from Cons.prems have "reg_inv (snd (step h s c))" by (rule reg_inv_step)
  then show ?case unfolding p exec_in_Cons by (rule Cons.IH)
qed

lemma export_minted_in:
  "reg_inv s \<Longrightarrow> get_bindparams (exec_in s hcs) = get_bindparams s @ minted_binds_in s hcs"
proof (induction s hcs rule: minted_binds_in.induct)
  case (1 s)
  show ?case by (simp add: exec_in_Nil)
next
  case (2 s h obj cfg hcs)
  from "2.prems" have inv: "reg_inv (snd (bindparam h s obj cfg))"
    by (rule reg_inv_bindparam)
  have e: "exec_in s ((h, Bindparam obj cfg) # hcs) = exec_in (snd (bindparam h s obj cfg)) hcs"
    by (simp only: exec_in_Cons step_Bindparam)
  show ?case
  proof (cases "find_bind h s obj")
    case None
    from binds_register_reg [OF "2.prems" None, of cfg] register_new(1) [OF None, of cfg]
    have "get_bindparams (snd (bindparam h s obj cfg)) =
            get_bindparams s @ [sa_bindparam (fst (bindparam h s obj cfg)) obj cfg]"
      by (simp add: get_bindparams_def)
    with "2.IH" [OF inv] None show ?thesis unfolding e by simp
  next
    case (Some k)
    with "2.IH" [OF inv] show ?thesis unfolding e by (simp add: bindparam_hit)
  qed
next
  case (3 s h hcs)
  then show ?case by (simp add: exec_in_Cons)
next
  case (4 s h name hcs)
  from "4.prems" have inv: "reg_inv (snd (alias_name s name))"
    using reg_inv_step [of s h "Alias name"] by (simp only: step_Alias)
  have e: "exec_in s ((h, Alias name) # hcs) = exec_in (snd (alias_name s name)) hcs"
    by (simp only: exec_in_Cons step_Alias)
  from "4.IH" [OF inv] show ?case unfolding e
    by (simp add: get_bindparams_def alias_name_frame)
qed

lemma export_keys:
  assumes "reg_inv s"
  shows "map bp_key (get_bindparams s) =
           map (\<lambda>i. ''b'' @ str_int i) [0 .. int (length (get_bindparams s)) - 1]"
    and "distinct (map bp_key (get_bindparams s))"
proof -
  from assms have "\<forall>p\<in>set (binds s). bp_key (snd p) = fst p"
    by (auto simp: reg_inv_def list_all_iff)
  then have k: "map bp_key (get_bindparams s) = map fst (binds s)"
    by (simp add: get_bindparams_def)
  from assms have n: "map fst (binds s) = map (\<lambda>i. ''b'' @ str_int i) [0 .. binds_count s - 1]"
    and c: "0 \<le> binds_count s"
    by (simp_all add: reg_inv_def)
  from n have "length (map fst (binds s)) = length [0 .. binds_count s - 1]"
    by simp
  with c have "int (length (get_bindparams s)) = binds_count s"
    by (simp add: get_bindparams_def)
  with k n show "map bp_key (get_bindparams s) =
           map (\<lambda>i. ''b'' @ str_int i) [0 .. int (length (get_bindparams s)) - 1]"
    by simp
  have "inj_on (\<lambda>i. ''b'' @ str_int i) (set [0 .. binds_count s - 1])"
    by (rule inj_onI) (auto dest: str_int_inj)
  then show "distinct (map bp_key (get_bindparams s))"
    unfolding k n by (simp add: distinct_map)
qed



lemma export_one_store:
  "distinct (map bp_value (get_bindparams (exec h init cs))) \<and>
   set (map bp_value (get_bindparams (exec h init cs))) = set (bound_objs cs) \<and>
   length (get_bindparams (exec h init cs)) = card (set (bound_objs cs))"
proof -
  have inv: "ctx_inv h (exec h init cs)"
    by (rule ctx_inv_exec) (rule ctx_inv_init)
  have 4: "distinct (map bp_value (get_bindparams (exec h init cs)))"
    using inv by (rule distinct_objs)
  have "set (map bp_value (get_bindparams (exec h init cs))) = set (map fst (all_pairs (exec h init cs)))"
    using objs_mset(2) [OF inv] by (rule mset_eq_setD)
  also have "\<dots> = set (bound_objs cs)"
    using objs_exec [of h init cs] by (simp add: all_pairs_def init_def)
  finally have 5: "set (map bp_value (get_bindparams (exec h init cs))) = set (bound_objs cs)" .
  have "length (get_bindparams (exec h init cs)) = length (map bp_value (get_bindparams (exec h init cs)))"
    by simp
  also have "\<dots> = card (set (map bp_value (get_bindparams (exec h init cs))))"
    using 4 by (simp only: distinct_card)
  finally have 6: "length (get_bindparams (exec h init cs)) = card (set (bound_objs cs))"
    unfolding 5 .
  from 4 5 6 show ?thesis by blast
qed

section \<open>Alias allocation\<close>

text \<open>A returned alias is in the set, and the set only grows.\<close>

lemma alias_name_member: "fst (alias_name s n) |\<in>| aliases (snd (alias_name s n))"
  by (simp add: alias_name_def Let_def)

lemma aliases_step_mono: "aliases s |\<subseteq>| aliases (snd (step h s c))"
proof (cases c)
  case (Bindparam obj cfg)
  show ?thesis unfolding Bindparam step_Bindparam
    by (cases "find_bind h s obj") (simp_all add: register_new(3) bindparam_hit)
next
  case Get_bindparams
  then show ?thesis by simp
next
  case (Alias name)
  show ?thesis unfolding Alias step_Alias
    by (auto simp: alias_name_def Let_def)
qed

lemma aliases_exec_mono: "aliases s |\<subseteq>| aliases (exec h s cs)"
proof (induction cs arbitrary: s)
  case Nil
  show ?case by (simp add: exec_Nil)
next
  case (Cons c cs)
  from aliases_step_mono [of s h c] Cons [of "snd (step h s c)"]
  show ?case unfolding exec_Cons by (rule fsubset_trans)
qed

section \<open>Claims\<close>

text \<open>
  C1, as stated, fails: an object of class \<^verbatim>\<open>A\<close> is registered, its class is set to
  \<^verbatim>\<open>B\<close>, and it is registered again. The second call looks in the group of \<^verbatim>\<open>B\<close>,
  finds none, and mints \<^verbatim>\<open>"b1"\<close> for the object that has \<^verbatim>\<open>"b0"\<close>.
\<close>

theorem same_object_class_changed:
  "fst (bindparam class_A_heap init 1 default_config) = ''b0'' \<and>
   fst (bindparam class_B_heap (snd (bindparam class_A_heap init 1 default_config)) 1
          default_config) = ''b1'' \<and>
   fst (bindparam class_B_heap (snd (bindparam class_A_heap init 1 default_config)) 1
          default_config) \<noteq> fst (bindparam class_A_heap init 1 default_config)"
proof -
  have "fst (bindparam class_A_heap init 1 default_config) = ''b0''"
    by code_simp
  moreover have "fst (bindparam class_B_heap (snd (bindparam class_A_heap init 1 default_config)) 1
          default_config) = ''b1''"
    by code_simp
  ultimately show ?thesis by simp
qed

text \<open>
  C1. Two calls of \<^verbatim>\<open>bindparam\<close> on one context with the same object (the same
  reference), of the same runtime type at both calls, return the same key: from any state
  of the context, whatever the calls in between and the stores they see, and whatever the
  keyword arguments of the two calls.
\<close>

theorem same_object_same_type_same_key:
  "obj_type (h2 obj) = obj_type (h1 obj) \<Longrightarrow>
   fst (bindparam h2 (exec_in (snd (bindparam h1 s obj c1)) hcs) obj c2) =
     fst (bindparam h1 s obj c1)"
  by (simp add: bindparam_again_in)

text \<open>
  Object 7 of class \<^verbatim>\<open>A\<close> registered, then registered while its class is \<^verbatim>\<open>B\<close>, then
  again as an \<^verbatim>\<open>A\<close>.
\<close>

theorem same_object_same_type_same_key_witness:
  "obj_type (class_A_heap 7) = obj_type (class_A_heap 7) \<and>
   fst (bindparam class_A_heap init 7 default_config) = ''b0'' \<and>
   fst (bindparam class_A_heap
         (exec_in (snd (bindparam class_A_heap init 7 default_config))
            [(class_B_heap, Bindparam 7 default_config), (class_A_heap, Alias ''t'')])
         7 (default_config\<lparr>cfg_quote := Some True\<rparr>)) = ''b0''"
proof -
  have "fst (bindparam class_A_heap init 7 default_config) = ''b0''"
    by code_simp
  with same_object_same_type_same_key [of class_A_heap 7 class_A_heap init default_config
      "[(class_B_heap, Bindparam 7 default_config), (class_A_heap, Alias ''t'')]"
      "default_config\<lparr>cfg_quote := Some True\<rparr>"]
  show ?thesis by simp
qed



text \<open>
  C3. The strings that \<^verbatim>\<open>alias\<close> returns on one context are not always pairwise distinct.
  At the calls \<^verbatim>\<open>alias("t_2")\<close>, \<^verbatim>\<open>alias("t")\<close>, \<^verbatim>\<open>alias("t")\<close> on a fresh context the
  third call finds \<^verbatim>\<open>"t"\<close> taken, appends the size 2 of the set and returns \<^verbatim>\<open>"t_2"\<close>
  without looking whether that name is taken; the first call returned it. (That a returned
  string is in the set afterwards holds: \<open>alias_name_member\<close>, \<open>aliases_exec_mono\<close>.)
\<close>

theorem alias_name_repeats:
  "fst (run h init [Alias ''t_2'', Alias ''t'', Alias ''t'']) = [Name ''t_2'', Name ''t'', Name ''t_2''] \<and>
   \<not> distinct (fst (run h init [Alias ''t_2'', Alias ''t'', Alias ''t'']))"
  by (simp add: Let_def init_def alias_name_def str_int_def str_nat_digit digit_chars_def
      fcard_finsert_if fcard_fempty)



text \<open>
  C5. \<^verbatim>\<open>alias(n)\<close>: a name that is not in the set is returned as it is and added; a name
  that is in the set is returned with \<^verbatim>\<open>"_"\<close> and the size of the set appended, and that
  string is added. Three calls \<^verbatim>\<open>alias("t")\<close> on a fresh context return \<^verbatim>\<open>"t"\<close>,
  \<^verbatim>\<open>"t_1"\<close>, \<^verbatim>\<open>"t_2"\<close>.
\<close>

theorem alias_name_cases:
  "(name |\<notin>| aliases s \<longrightarrow>
      alias_name s name = (name, s\<lparr>aliases := finsert name (aliases s)\<rparr>)) \<and>
   (name |\<in>| aliases s \<longrightarrow>
      alias_name s name =
        (name @ ''_'' @ str_int (int (fcard (aliases s))),
         s\<lparr>aliases := finsert (name @ ''_'' @ str_int (int (fcard (aliases s)))) (aliases s)\<rparr>)) \<and>
   fst (run h init [Alias ''t'', Alias ''t'', Alias ''t'']) = [Name ''t'', Name ''t_1'', Name ''t_2'']"
  by (simp add: Let_def init_def alias_name_def str_int_def str_nat_digit digit_chars_def
      fcard_finsert_if fcard_fempty)

text \<open>\<^verbatim>\<open>alias("u")\<close> twice: \<^verbatim>\<open>"u"\<close>, then \<^verbatim>\<open>"u_1"\<close>.\<close>

theorem alias_name_cases_witness:
  "''u'' |\<notin>| aliases init \<and> alias_name init ''u'' = (''u'', init\<lparr>aliases := {|''u''|}\<rparr>) \<and>
   ''u'' |\<in>| aliases (init\<lparr>aliases := {|''u''|}\<rparr>) \<and>
   alias_name (init\<lparr>aliases := {|''u''|}\<rparr>) ''u'' = (''u_1'', init\<lparr>aliases := {|''u_1'', ''u''|}\<rparr>)"
proof -
  have 1: "''u'' |\<notin>| aliases init" by (simp add: init_def)
  have 2: "''u'' |\<in>| aliases (init\<lparr>aliases := {|''u''|}\<rparr>)" by simp
  have 3: "''u'' @ ''_'' @ str_int (int (fcard (aliases (init\<lparr>aliases := {|''u''|}\<rparr>)))) = ''u_1''"
    by (simp add: str_int_def str_nat_digit digit_chars_def fcard_finsert_if fcard_fempty)
  from alias_name_cases [of "''u''" init] 1
  have "alias_name init ''u'' = (''u'', init\<lparr>aliases := {|''u''|}\<rparr>)"
    by (simp add: init_def)
  moreover from alias_name_cases [of "''u''" "init\<lparr>aliases := {|''u''|}\<rparr>"] 2
  have "alias_name (init\<lparr>aliases := {|''u''|}\<rparr>) ''u'' =
          (''u_1'', init\<lparr>aliases := {|''u_1'', ''u''|}\<rparr>)"
    unfolding 3 by simp
  ultimately show ?thesis using 1 2 by blast
qed

text \<open>
  C6, as stated, fails in its count: one object registered as an \<^verbatim>\<open>A\<close> and again as a
  \<^verbatim>\<open>B\<close> has two parameters in the export.
\<close>

theorem export_class_changed:
  "length (get_bindparams (exec_in init
     [(class_A_heap, Bindparam 1 default_config), (class_B_heap, Bindparam 1 default_config)])) = 2 \<and>
   card (set (bound_objs [Bindparam 1 default_config, Bindparam 1 default_config])) = 1"
proof -
  have "length (get_bindparams (exec_in init
     [(class_A_heap, Bindparam 1 default_config), (class_B_heap, Bindparam 1 default_config)])) = 2"
    by code_simp
  moreover have "card (set (bound_objs [Bindparam 1 default_config, Bindparam 1 default_config])) = 1"
    by simp
  ultimately show ?thesis by simp
qed

text \<open>
  C6. On a context reached from \<^const>\<open>init\<close> by any calls, \<^verbatim>\<open>get_bindparams\<close> returns the
  BindParameters constructed so far, in the order of construction; their keys are
  \<^verbatim>\<open>"b0"\<close>, \<^verbatim>\<open>"b1"\<close>, ... in this order, so the order is that of minting and no key occurs
  twice; the call returns the context as it was. When no object changes its runtime type
  between its registrations, no object occurs twice, the objects are those passed to
  \<^verbatim>\<open>bindparam\<close>, and the length is the number of distinct objects registered.
\<close>

theorem get_bindparams_exports_minted:
  "get_bindparams (exec_in init hcs) = minted_binds_in init hcs \<and>
   map bp_key (get_bindparams (exec_in init hcs)) =
     map (\<lambda>i. ''b'' @ str_int i) [0 .. int (length (get_bindparams (exec_in init hcs))) - 1] \<and>
   distinct (map bp_key (get_bindparams (exec_in init hcs))) \<and>
   step h s Get_bindparams = (Params (get_bindparams s), s) \<and>
   (types_fixed h hcs \<longrightarrow>
      distinct (map bp_value (get_bindparams (exec_in init hcs))) \<and>
      set (map bp_value (get_bindparams (exec_in init hcs))) = set (bound_objs (map snd hcs)) \<and>
      length (get_bindparams (exec_in init hcs)) = card (set (bound_objs (map snd hcs))))"
proof (intro conjI impI)
  have inv: "reg_inv (exec_in init hcs)"
    by (rule reg_inv_exec_in) (rule reg_inv_init)
  show "get_bindparams (exec_in init hcs) = minted_binds_in init hcs"
    using export_minted_in [OF reg_inv_init, of hcs] by (simp add: get_bindparams_def init_def)
  show "map bp_key (get_bindparams (exec_in init hcs)) =
     map (\<lambda>i. ''b'' @ str_int i) [0 .. int (length (get_bindparams (exec_in init hcs))) - 1]"
    using inv by (rule export_keys(1))
  show "distinct (map bp_key (get_bindparams (exec_in init hcs)))"
    using inv by (rule export_keys(2))
  show "step h s Get_bindparams = (Params (get_bindparams s), s)"
    by simp
next
  assume "types_fixed h hcs"
  then have e: "exec_in init hcs = exec h init (map snd hcs)"
    by (rule exec_in_fixed)
  from export_one_store [of h "map snd hcs"]
  show "distinct (map bp_value (get_bindparams (exec_in init hcs)))"
    and "set (map bp_value (get_bindparams (exec_in init hcs))) = set (bound_objs (map snd hcs))"
    and "length (get_bindparams (exec_in init hcs)) = card (set (bound_objs (map snd hcs)))"
    unfolding e by blast+
qed

text \<open>
  Objects 1, 2 and 1 again: two parameters, in the order \<^verbatim>\<open>"b0"\<close>, \<^verbatim>\<open>"b1"\<close>.
\<close>

theorem get_bindparams_exports_minted_witness:
  "types_fixed int_heap
     [(int_heap, Bindparam 1 default_config), (int_heap, Bindparam 2 default_config),
      (class_A_heap, Get_bindparams), (int_heap, Bindparam 1 default_config)] \<and>
   get_bindparams (exec_in init
     [(int_heap, Bindparam 1 default_config), (int_heap, Bindparam 2 default_config),
      (class_A_heap, Get_bindparams), (int_heap, Bindparam 1 default_config)]) =
     [sa_bindparam ''b0'' 1 default_config, sa_bindparam ''b1'' 2 default_config] \<and>
   length (get_bindparams (exec_in init
     [(int_heap, Bindparam 1 default_config), (int_heap, Bindparam 2 default_config),
      (class_A_heap, Get_bindparams), (int_heap, Bindparam 1 default_config)])) =
     card (set (bound_objs (map snd
       [(int_heap, Bindparam 1 default_config), (int_heap, Bindparam 2 default_config),
        (class_A_heap, Get_bindparams), (int_heap, Bindparam 1 default_config)])))"
proof -
  let ?hcs = "[(int_heap, Bindparam 1 default_config), (int_heap, Bindparam 2 default_config),
      (class_A_heap, Get_bindparams), (int_heap, Bindparam 1 default_config)]"
  have 1: "types_fixed int_heap ?hcs"
    by (simp add: types_fixed_def)
  have 2: "minted_binds_in init ?hcs =
     [sa_bindparam ''b0'' 1 default_config, sa_bindparam ''b1'' 2 default_config]"
    by code_simp
  from get_bindparams_exports_minted [of ?hcs int_heap] 1
  have a: "get_bindparams (exec_in init ?hcs) = minted_binds_in init ?hcs"
    and b: "length (get_bindparams (exec_in init ?hcs)) = card (set (bound_objs (map snd ?hcs)))"
    by blast+
  from 1 a [unfolded 2] b show ?thesis by blast
qed

text \<open>
  C7, as stated, fails: registered again after its class was set from \<^verbatim>\<open>A\<close> to \<^verbatim>\<open>B\<close>, an
  object is not found; the call advances the counter and writes the groups and \<^verbatim>\<open>_binds\<close>.
\<close>

theorem repeated_bind_class_changed:
  "binds_count (snd (bindparam class_A_heap init 1 default_config)) = 1 \<and>
   binds_count (snd (bindparam class_B_heap (snd (bindparam class_A_heap init 1 default_config)) 1
     default_config)) = 2 \<and>
   snd (bindparam class_B_heap (snd (bindparam class_A_heap init 1 default_config)) 1
     default_config) \<noteq> snd (bindparam class_A_heap init 1 default_config)"
proof -
  have 1: "binds_count (snd (bindparam class_A_heap init 1 default_config)) = 1"
    by code_simp
  have 2: "binds_count (snd (bindparam class_B_heap
     (snd (bindparam class_A_heap init 1 default_config)) 1 default_config)) = 2"
    by code_simp
  have "snd (bindparam class_B_heap (snd (bindparam class_A_heap init 1 default_config)) 1
     default_config) \<noteq> snd (bindparam class_A_heap init 1 default_config)"
  proof
    assume "snd (bindparam class_B_heap (snd (bindparam class_A_heap init 1 default_config)) 1
     default_config) = snd (bindparam class_A_heap init 1 default_config)"
    then have "binds_count (snd (bindparam class_B_heap
        (snd (bindparam class_A_heap init 1 default_config)) 1 default_config)) =
      binds_count (snd (bindparam class_A_heap init 1 default_config))"
      by (rule arg_cong)
    with 1 2 show False by simp
  qed
  with 1 2 show ?thesis by blast
qed

text \<open>
  C7. A call of \<^verbatim>\<open>bindparam\<close> with an object registered before on this context, of the
  runtime type it had then, returns the key of the earlier call and leaves the context as it
  is (the alias set, the type groups, the counter and the stored BindParameters): from any
  state, whatever the calls in between and the stores they see.
\<close>

theorem repeated_bind_same_type_no_effect:
  "obj_type (h2 obj) = obj_type (h1 obj) \<Longrightarrow>
   bindparam h2 (exec_in (snd (bindparam h1 s obj c1)) hcs) obj c2 =
     (fst (bindparam h1 s obj c1), exec_in (snd (bindparam h1 s obj c1)) hcs) \<and>
   aliases (snd (bindparam h2 (exec_in (snd (bindparam h1 s obj c1)) hcs) obj c2)) =
     aliases (exec_in (snd (bindparam h1 s obj c1)) hcs) \<and>
   binds_values (snd (bindparam h2 (exec_in (snd (bindparam h1 s obj c1)) hcs) obj c2)) =
     binds_values (exec_in (snd (bindparam h1 s obj c1)) hcs) \<and>
   binds_count (snd (bindparam h2 (exec_in (snd (bindparam h1 s obj c1)) hcs) obj c2)) =
     binds_count (exec_in (snd (bindparam h1 s obj c1)) hcs) \<and>
   binds (snd (bindparam h2 (exec_in (snd (bindparam h1 s obj c1)) hcs) obj c2)) =
     binds (exec_in (snd (bindparam h1 s obj c1)) hcs)"
  by (simp add: bindparam_again_in)

text \<open>
  Object 1 of class \<^verbatim>\<open>A\<close> registered, object 2 registered as a \<^verbatim>\<open>B\<close>, an alias
  allocated, object 1 again with another configuration.
\<close>

theorem repeated_bind_same_type_no_effect_witness:
  "obj_type (class_A_heap 1) = obj_type (class_A_heap 1) \<and>
   bindparam class_A_heap
     (exec_in (snd (bindparam class_A_heap init 1 default_config))
        [(class_B_heap, Bindparam 2 default_config), (class_A_heap, Alias ''t'')])
     1 (default_config\<lparr>cfg_quote := Some True\<rparr>) =
   (''b0'', exec_in (snd (bindparam class_A_heap init 1 default_config))
        [(class_B_heap, Bindparam 2 default_config), (class_A_heap, Alias ''t'')])"
proof -
  have "fst (bindparam class_A_heap init 1 default_config) = ''b0''"
    by code_simp
  with repeated_bind_same_type_no_effect [of class_A_heap 1 class_A_heap init default_config
      "[(class_B_heap, Bindparam 2 default_config), (class_A_heap, Alias ''t'')]"
      "default_config\<lparr>cfg_quote := Some True\<rparr>"]
  show ?thesis by simp
qed

text \<open>
  C8, as stated, fails: for an object registered as an \<^verbatim>\<open>A\<close> and again as a \<^verbatim>\<open>B\<close> the
  flat list finds the object and returns \<^verbatim>\<open>"b0"\<close> twice; the type groups return \<^verbatim>\<open>"b0"\<close>,
  then \<^verbatim>\<open>"b1"\<close>.
\<close>

theorem flat_registry_class_changed:
  "fst (flat_run flat_init [Bindparam 1 default_config, Bindparam 1 default_config]) =
     [Key ''b0'', Key ''b0''] \<and>
   fst (run_in init
          [(class_A_heap, Bindparam 1 default_config), (class_B_heap, Bindparam 1 default_config)]) =
     [Key ''b0'', Key ''b1''] \<and>
   fst (flat_run flat_init [Bindparam 1 default_config, Bindparam 1 default_config]) \<noteq>
   fst (run_in init
          [(class_A_heap, Bindparam 1 default_config), (class_B_heap, Bindparam 1 default_config)])"
proof -
  have "fst (flat_run flat_init [Bindparam 1 default_config, Bindparam 1 default_config]) =
     [Key ''b0'', Key ''b0'']"
    by code_simp
  moreover have "fst (run_in init
          [(class_A_heap, Bindparam 1 default_config), (class_B_heap, Bindparam 1 default_config)]) =
     [Key ''b0'', Key ''b1'']"
    by code_simp
  ultimately show ?thesis by simp
qed

text \<open>
  C8. For every sequence of calls on fresh contexts in which no object changes its runtime
  type between its registrations, the registry over one flat list and \<^verbatim>\<open>QueryContext\<close> with
  its type groups return the same results call by call (the keys, and the exported
  BindParameters wherever \<^verbatim>\<open>get_bindparams\<close> is called) and export the same sequence at the
  end.
\<close>

theorem flat_registry_equivalent_fixed_types:
  "types_fixed h hcs \<Longrightarrow>
   fst (flat_run flat_init (map snd hcs)) = fst (run_in init hcs) \<and>
   flat_get_bindparams (snd (flat_run flat_init (map snd hcs))) = get_bindparams (exec_in init hcs)"
proof -
  assume "types_fixed h hcs"
  then have r: "run_in init hcs = run h init (map snd hcs)"
    by (rule run_in_fixed)
  from flat_run_sim [OF flat_rel_init [of h], of "map snd hcs"]
  show ?thesis
    unfolding exec_in_def r
    by (simp add: flat_rel_def flat_get_bindparams_def get_bindparams_def)
qed

text \<open>
  Object 1 of type \<^verbatim>\<open>int\<close> and object 2 of type \<^verbatim>\<open>str\<close>, their contents changing between
  the calls: two groups, one flat list.
\<close>

theorem flat_registry_equivalent_fixed_types_witness:
  "types_fixed (\<lambda>r. \<lparr>obj_type = (if r = 1 then ''int'' else ''str''), obj_val = 0::int\<rparr>)
     [(\<lambda>r. \<lparr>obj_type = (if r = 1 then ''int'' else ''str''), obj_val = 0\<rparr>, Bindparam 1 default_config),
      (\<lambda>r. \<lparr>obj_type = (if r = 1 then ''int'' else ''str''), obj_val = 5\<rparr>, Bindparam 2 default_config),
      (\<lambda>r. \<lparr>obj_type = (if r = 1 then ''int'' else ''str''), obj_val = 9\<rparr>, Bindparam 1 default_config)] \<and>
   fst (flat_run flat_init
          [Bindparam 1 default_config, Bindparam 2 default_config, Bindparam 1 default_config]) =
     [Key ''b0'', Key ''b1'', Key ''b0''] \<and>
   fst (run_in init
     [(\<lambda>r. \<lparr>obj_type = (if r = 1 then ''int'' else ''str''), obj_val = 0::int\<rparr>, Bindparam 1 default_config),
      (\<lambda>r. \<lparr>obj_type = (if r = 1 then ''int'' else ''str''), obj_val = 5\<rparr>, Bindparam 2 default_config),
      (\<lambda>r. \<lparr>obj_type = (if r = 1 then ''int'' else ''str''), obj_val = 9\<rparr>, Bindparam 1 default_config)]) =
     [Key ''b0'', Key ''b1'', Key ''b0'']"
proof -
  let ?h = "\<lambda>v (r::ref). \<lparr>obj_type = (if r = 1 then ''int'' else ''str''), obj_val = v::int\<rparr>"
  let ?hcs = "[(?h 0, Bindparam 1 default_config), (?h 5, Bindparam 2 default_config),
               (?h 9, Bindparam 1 default_config)]"
  have 1: "types_fixed (?h 0) ?hcs"
    by (simp add: types_fixed_def)
  have 2: "fst (flat_run flat_init
          [Bindparam 1 default_config, Bindparam 2 default_config, Bindparam 1 default_config]) =
     [Key ''b0'', Key ''b1'', Key ''b0'']"
    by code_simp
  from flat_registry_equivalent_fixed_types [OF 1] 1 2 show ?thesis by simp
qed






end
